theory Spec2Isabelle
  imports Complex_Main
begin

section \<open>IEEE 754 binary64 values and Python's float operations\<close>

text \<open>
  The notebook computes with Python floats, which are IEEE 754 binary64 numbers. A finite
  float is represented by its exact rational value; the two infinities and NaN are separate
  constructors. The sign of zero is not represented: Python raises on division by either
  zero and compares both zeros equal, so the sign cannot influence the solver.
\<close>

datatype double = Fin rat | PInf | NInf | NaN

datatype error = ZeroDivisionError

function bit_length :: "int \<Rightarrow> int" where
  "bit_length n = (if n \<le> 0 then 0 else 1 + bit_length (n div 2))"
  by pat_completeness auto
termination
  by (relation "measure nat") auto

declare bit_length.simps [simp del]

definition ilog2 :: "rat \<Rightarrow> int" where
  \<comment> \<open>the binary exponent: \<open>2 powi ilog2 x \<le> \<bar>x\<bar> < 2 powi (ilog2 x + 1)\<close> for \<open>x \<noteq> 0\<close>\<close>
  "ilog2 x =
     (if 1 \<le> \<bar>x\<bar> then bit_length \<lfloor>\<bar>x\<bar>\<rfloor> - 1
      else - bit_length (\<lceil>1 / \<bar>x\<bar>\<rceil> - 1))"

definition round_half_even :: "rat \<Rightarrow> int" where
  "round_half_even r =
     (let f = \<lfloor>r\<rfloor>; d = r - of_int f
      in if d < 1 / 2 then f else if 1 / 2 < d then f + 1 else if even f then f else f + 1)"

definition ulp_exp :: "rat \<Rightarrow> int" where
  \<comment> \<open>exponent of the unit in the last place: 53 significant bits, subnormals below \<open>2 powi - 1022\<close>\<close>
  "ulp_exp x = max (ilog2 x) (- 1022) - 52"

definition round_rat :: "rat \<Rightarrow> rat" where
  "round_rat x = (let e = ulp_exp x in of_int (round_half_even (x / 2 powi e)) * 2 powi e)"

definition rnd :: "rat \<Rightarrow> double" where
  \<comment> \<open>round to nearest, ties to even, overflow to infinity\<close>
  "rnd x =
     (let y = round_rat x
      in if 2 ^ 1024 \<le> y then PInf else if y \<le> - (2 ^ 1024) then NInf else Fin y)"

definition is_double :: "rat \<Rightarrow> bool" where
  "is_double x \<longleftrightarrow> rnd x = Fin x"

fun float_neg :: "double \<Rightarrow> double" where
  "float_neg (Fin a) = Fin (- a)"
| "float_neg PInf = NInf"
| "float_neg NInf = PInf"
| "float_neg NaN = NaN"

fun float_abs :: "double \<Rightarrow> double" where
  "float_abs (Fin a) = Fin \<bar>a\<bar>"
| "float_abs PInf = PInf"
| "float_abs NInf = PInf"
| "float_abs NaN = NaN"

fun float_add :: "double \<Rightarrow> double \<Rightarrow> double" where
  "float_add (Fin a) (Fin b) = rnd (a + b)"
| "float_add NaN _ = NaN"
| "float_add _ NaN = NaN"
| "float_add PInf NInf = NaN"
| "float_add NInf PInf = NaN"
| "float_add PInf _ = PInf"
| "float_add _ PInf = PInf"
| "float_add NInf _ = NInf"
| "float_add _ NInf = NInf"

definition float_sub :: "double \<Rightarrow> double \<Rightarrow> double" where
  "float_sub a b = float_add a (float_neg b)"

fun float_sgn_inf :: "bool \<Rightarrow> double" where
  "float_sgn_inf True = PInf"
| "float_sgn_inf False = NInf"

fun float_mul :: "double \<Rightarrow> double \<Rightarrow> double" where
  "float_mul (Fin a) (Fin b) = rnd (a * b)"
| "float_mul NaN _ = NaN"
| "float_mul _ NaN = NaN"
| "float_mul (Fin a) PInf = (if a = 0 then NaN else float_sgn_inf (0 < a))"
| "float_mul (Fin a) NInf = (if a = 0 then NaN else float_sgn_inf (a < 0))"
| "float_mul PInf (Fin b) = (if b = 0 then NaN else float_sgn_inf (0 < b))"
| "float_mul NInf (Fin b) = (if b = 0 then NaN else float_sgn_inf (b < 0))"
| "float_mul PInf PInf = PInf"
| "float_mul NInf NInf = PInf"
| "float_mul PInf NInf = NInf"
| "float_mul NInf PInf = NInf"

fun float_quot :: "double \<Rightarrow> double \<Rightarrow> double" where
  \<comment> \<open>the IEEE quotient, for a divisor other than zero\<close>
  "float_quot (Fin a) (Fin b) = rnd (a / b)"
| "float_quot NaN _ = NaN"
| "float_quot _ NaN = NaN"
| "float_quot (Fin a) _ = Fin 0"
| "float_quot PInf (Fin b) = float_sgn_inf (0 < b)"
| "float_quot NInf (Fin b) = float_sgn_inf (b < 0)"
| "float_quot _ _ = NaN"

definition float_truediv :: "double \<Rightarrow> double \<Rightarrow> error + double" where
  \<comment> \<open>Python's \<open>a / b\<close> on floats: a zero divisor raises, whatever the dividend\<close>
  "float_truediv a b = (if b = Fin 0 then Inl ZeroDivisionError else Inr (float_quot a b))"

fun float_le :: "double \<Rightarrow> double \<Rightarrow> bool" where
  "float_le (Fin a) (Fin b) \<longleftrightarrow> a \<le> b"
| "float_le NaN _ \<longleftrightarrow> False"
| "float_le _ NaN \<longleftrightarrow> False"
| "float_le NInf _ \<longleftrightarrow> True"
| "float_le _ PInf \<longleftrightarrow> True"
| "float_le _ _ \<longleftrightarrow> False"

definition float_eq :: "double \<Rightarrow> double \<Rightarrow> bool" where
  "float_eq a b \<longleftrightarrow> a = b \<and> a \<noteq> NaN"

definition is_inf :: "double \<Rightarrow> bool" where
  "is_inf a \<longleftrightarrow> a = PInf \<or> a = NInf"

section \<open>The closeness test of the standard library\<close>

text \<open>
  \<open>math.isclose\<close> belongs to Python's standard library, not to the notebook. The
  definition follows its implementation in CPython's math module, restricted to the
  non-negative tolerances the notebook uses (it always takes the defaults).
\<close>

definition isclose_impl :: "double \<Rightarrow> double \<Rightarrow> double \<Rightarrow> double \<Rightarrow> bool" where
  "isclose_impl rel_tol abs_tol a b =
     (if float_eq a b then True
      else if is_inf a \<or> is_inf b then False
      else
        (let diff = float_abs (float_sub b a)
         in float_le diff (float_abs (float_mul rel_tol b))
            \<or> float_le diff (float_abs (float_mul rel_tol a))
            \<or> float_le diff abs_tol))"

definition rel_tol_default :: double where
  \<comment> \<open>the literal \<open>1e-09\<close>: the decimal fraction rounded to a float\<close>
  "rel_tol_default = rnd (1 / 10 ^ 9)"

definition rel_tol_val :: rat where
  \<comment> \<open>the exact value of that float, see \<open>rel_tol_default_eq\<close>\<close>
  "rel_tol_val = 4835703278458517 / 2 ^ 82"

definition abs_tol_default :: double where
  "abs_tol_default = Fin 0"

definition isclose :: "double \<Rightarrow> double \<Rightarrow> bool" where
  "isclose a b = isclose_impl rel_tol_default abs_tol_default a b"

section \<open>The solver\<close>

text \<open>
  The body of the \<open>while True\<close> loop of \<open>newton_sqrt\<close>. The printed guesses are
  collected in a list; \<open>None\<close> stands for a run that never leaves the loop.
\<close>

partial_function (option) newton_loop ::
  "double \<Rightarrow> bool \<Rightarrow> double \<Rightarrow> double list \<Rightarrow> (double list \<times> (error + double)) option"
where
  "newton_loop n verbose guess out =
     (let out' = (if verbose then out @ [guess] else out)
      in case float_truediv n guess of
           Inl e \<Rightarrow> Some (out', Inl e)
         | Inr q \<Rightarrow>
             (case float_truediv (float_add guess q) (Fin 2) of
                Inl e \<Rightarrow> Some (out', Inl e)
              | Inr better_guess \<Rightarrow>
                  if isclose guess better_guess then Some (out', Inr better_guess)
                  else newton_loop n verbose better_guess out'))"

declare newton_loop.simps [code]

definition newton_sqrt :: "double \<Rightarrow> bool \<Rightarrow> (double list \<times> (error + double)) option" where
  "newton_sqrt n verbose =
     (case float_truediv n (Fin 2) of
        Inl e \<Rightarrow> Some ([], Inl e)
      | Inr guess \<Rightarrow> newton_loop n verbose guess [])"


section \<open>Properties of rounding\<close>

subsection \<open>The binary exponent\<close>

lemma bit_length_nonpos: "n \<le> 0 \<Longrightarrow> bit_length n = 0"
  by (simp add: bit_length.simps)

lemma bit_length_bounds:
  "0 < n \<Longrightarrow> 0 < bit_length n \<and> 2 ^ nat (bit_length n - 1) \<le> n \<and> n < 2 ^ nat (bit_length n)"
proof (induction n rule: bit_length.induct)
  case (1 n)
  show ?case
  proof (cases "n = 1")
    case True
    have "bit_length 1 = 1" by (simp add: bit_length.simps)
    then show ?thesis using True by simp
  next
    case False
    with "1.prems" have h: "0 < n div 2" by simp
    let ?b = "bit_length (n div 2)"
    have nle: "\<not> n \<le> 0" using "1.prems" by simp
    have ih0: "0 < ?b \<and> 2 ^ nat (?b - 1) \<le> n div 2 \<and> n div 2 < 2 ^ nat ?b"
      by (rule "1.IH"[OF nle h])
    then have ih: "0 < ?b" "2 ^ nat (?b - 1) \<le> n div 2" "n div 2 < 2 ^ nat ?b"
      by blast+
    have eq: "bit_length n = 1 + ?b" using nle by (subst bit_length.simps) simp
    have n1: "nat (bit_length n - 1) = Suc (nat (?b - 1))" using ih(1) eq by linarith
    have n2: "nat (bit_length n) = Suc (nat ?b)" using ih(1) eq by linarith
    have a: "2 * 2 ^ nat (?b - 1) \<le> n" using ih(2) by linarith
    have b: "n < 2 * 2 ^ nat ?b" using ih(3) by linarith
    have c: "0 < bit_length n" using eq ih(1) by linarith
    show ?thesis unfolding n1 n2 using a b c by simp
  qed
qed

lemma ilog2_bounds:
  assumes "x \<noteq> 0"
  shows "2 powi ilog2 x \<le> \<bar>x\<bar> \<and> \<bar>x\<bar> < 2 powi (ilog2 x + 1)"
proof (cases "1 \<le> \<bar>x\<bar>")
  case True
  let ?m = "\<lfloor>\<bar>x\<bar>\<rfloor>"
  have m: "0 < ?m" using True by simp
  let ?b = "bit_length ?m"
  from bit_length_bounds[OF m] have b: "0 < ?b" "2 ^ nat (?b - 1) \<le> ?m" "?m < 2 ^ nat ?b"
    by simp_all
  have e: "ilog2 x = ?b - 1" using True by (simp add: ilog2_def)
  have "(2::rat) powi (?b - 1) = 2 ^ nat (?b - 1)" using b(1) by (simp add: power_int_nonneg_exp)
  also have "\<dots> = of_int (2 ^ nat (?b - 1))" by simp
  also have "\<dots> \<le> of_int ?m" using b(2) by (simp only: of_int_le_iff)
  also have "\<dots> \<le> \<bar>x\<bar>" by simp
  finally have lo: "2 powi (?b - 1) \<le> \<bar>x\<bar>" .
  have "?m + 1 \<le> 2 ^ nat ?b" using b(3) by simp
  then have "(of_int (?m + 1) :: rat) \<le> of_int (2 ^ nat ?b)" by (simp only: of_int_le_iff)
  moreover have "\<bar>x\<bar> < of_int (?m + 1)" by linarith
  moreover have "(of_int (2 ^ nat ?b) :: rat) = 2 ^ nat ?b" by simp
  ultimately have "\<bar>x\<bar> < 2 ^ nat ?b" by linarith
  also have "\<dots> = 2 powi ?b" using b(1) by (simp add: power_int_nonneg_exp)
  finally show ?thesis using lo e by simp
next
  case False
  then have x1: "\<bar>x\<bar> < 1" by simp
  have x0: "0 < \<bar>x\<bar>" using assms by simp
  let ?y = "1 / \<bar>x\<bar>"
  have y1: "1 < ?y" using x0 x1 by simp
  let ?m = "\<lceil>?y\<rceil>"
  have m: "0 < ?m - 1" using y1 by (simp add: less_ceiling_iff)
  let ?k = "bit_length (?m - 1)"
  from bit_length_bounds[OF m] have k: "0 < ?k" "2 ^ nat (?k - 1) \<le> ?m - 1" "?m - 1 < 2 ^ nat ?k"
    by simp_all
  have e: "ilog2 x = - ?k" using False by (simp add: ilog2_def)
  have "?m \<le> 2 ^ nat ?k" using k(3) by simp
  then have "(of_int ?m :: rat) \<le> of_int (2 ^ nat ?k)" by (simp only: of_int_le_iff)
  moreover have "?y \<le> of_int ?m" by simp
  moreover have "(of_int (2 ^ nat ?k) :: rat) = 2 ^ nat ?k" by simp
  ultimately have yk: "?y \<le> 2 ^ nat ?k" by linarith
  have p: "(2::rat) powi (- ?k) = 1 / 2 ^ nat ?k"
    using k(1) by (simp add: power_int_minus_divide power_int_nonneg_exp)
  have lo: "2 powi (- ?k) \<le> \<bar>x\<bar>"
    unfolding p using yk x0 by (simp add: field_simps)
  have "(of_int (2 ^ nat (?k - 1)) :: rat) \<le> of_int (?m - 1)" using k(2) by (simp only: of_int_le_iff)
  moreover have "of_int (?m - 1) < ?y" using ceiling_correct[of ?y] by simp
  moreover have "(of_int (2 ^ nat (?k - 1)) :: rat) = 2 ^ nat (?k - 1)" by simp
  ultimately have ky: "2 ^ nat (?k - 1) < ?y" by linarith
  have p2: "(2::rat) powi (- ?k + 1) = 1 / 2 ^ nat (?k - 1)"
  proof -
    have "- ?k + 1 = - (?k - 1)" by simp
    then show ?thesis using k(1) by (simp only: power_int_minus_divide) (simp add: power_int_nonneg_exp)
  qed
  have hi: "\<bar>x\<bar> < 2 powi (- ?k + 1)"
    unfolding p2 using ky x0 by (simp add: field_simps)
  show ?thesis using lo hi e by simp
qed

lemma p2_less_iff: "(2::rat) powi a < 2 powi b \<longleftrightarrow> a < b"
proof
  assume h: "(2::rat) powi a < 2 powi b"
  show "a < b"
  proof (rule ccontr)
    assume "\<not> a < b"
    then have "b \<le> a" by simp
    then have "(2::rat) powi b \<le> 2 powi a" by (rule power_int_increasing) simp
    with h show False by simp
  qed
next
  assume "a < b"
  then show "(2::rat) powi a < 2 powi b" by (rule power_int_strict_increasing) simp
qed

lemma p2_le_iff: "(2::rat) powi a \<le> 2 powi b \<longleftrightarrow> a \<le> b"
  using p2_less_iff[of b a] by (simp add: not_less[symmetric])

lemma ilog2_unique:
  assumes "2 powi e \<le> \<bar>x\<bar>" "\<bar>x\<bar> < 2 powi (e + 1)"
  shows "ilog2 x = e"
proof -
  have "(0::rat) < 2 powi e" by simp
  with assms(1) have "0 < \<bar>x\<bar>" by linarith
  then have x: "x \<noteq> 0" by simp
  from ilog2_bounds[OF x] have b: "2 powi ilog2 x \<le> \<bar>x\<bar>" "\<bar>x\<bar> < 2 powi (ilog2 x + 1)" by simp_all
  have "(2::rat) powi e < 2 powi (ilog2 x + 1)" using assms(1) b(2) by simp
  then have 1: "e < ilog2 x + 1" by (simp add: p2_less_iff)
  have "(2::rat) powi ilog2 x < 2 powi (e + 1)" using assms(2) b(1) by simp
  then have 2: "ilog2 x < e + 1" by (simp add: p2_less_iff)
  from 1 2 show ?thesis by simp
qed

subsection \<open>Rounding to the nearest integer, ties to even\<close>

lemma rhe_cases:
  "round_half_even r = \<lfloor>r\<rfloor> \<or> round_half_even r = \<lfloor>r\<rfloor> + 1"
  by (simp add: round_half_even_def Let_def)

lemma rhe_err: "\<bar>of_int (round_half_even r) - r\<bar> \<le> 1 / 2"
proof -
  have "of_int \<lfloor>r\<rfloor> \<le> r" "r < of_int \<lfloor>r\<rfloor> + 1" by linarith+
  then show ?thesis by (auto simp: round_half_even_def Let_def)
qed

lemma rhe_nearest:
  assumes "\<bar>r - of_int k\<bar> < 1 / 2"
  shows "round_half_even r = k"
proof -
  have f: "of_int \<lfloor>r\<rfloor> \<le> r" "r < of_int \<lfloor>r\<rfloor> + 1" by linarith+
  consider "\<lfloor>r\<rfloor> = k" | "\<lfloor>r\<rfloor> = k - 1"
  proof -
    have "of_int k - 1 / 2 < r" "r < of_int k + 1 / 2" using assms by linarith+
    then have a: "of_int (k - 1) \<le> r" and b: "r < of_int (k + 1)" by simp_all
    have "k - 1 \<le> \<lfloor>r\<rfloor>" using a unfolding le_floor_iff .
    moreover have "\<lfloor>r\<rfloor> < k + 1" using b unfolding floor_less_iff .
    ultimately have "\<lfloor>r\<rfloor> = k \<or> \<lfloor>r\<rfloor> = k - 1" by linarith
    then show ?thesis using that by blast
  qed
  then show ?thesis
  proof cases
    case 1
    then have "r - of_int \<lfloor>r\<rfloor> < 1 / 2" using assms by linarith
    then show ?thesis using 1 by (simp add: round_half_even_def Let_def)
  next
    case 2
    then have "of_int \<lfloor>r\<rfloor> = (of_int k :: rat) - 1" by simp
    then have "1 / 2 < r - of_int \<lfloor>r\<rfloor>" using assms by linarith
    then show ?thesis using 2 by (simp add: round_half_even_def Let_def)
  qed
qed

lemma rhe_of_int [simp]: "round_half_even (of_int k) = k"
  by (rule rhe_nearest) simp

lemma rhe_tie:
  assumes "\<bar>r - of_int k\<bar> = 1 / 2" "even k"
  shows "round_half_even r = k"
proof -
  consider "r = of_int k + 1 / 2" | "r = of_int (k - 1) + 1 / 2" using assms(1) by (auto simp: abs_if split: if_splits)
  then show ?thesis
  proof cases
    case 1
    have "\<lfloor>r\<rfloor> = k" unfolding 1 by (simp add: floor_unique)
    then show ?thesis using 1 assms(2) by (simp add: round_half_even_def Let_def)
  next
    case 2
    have fl: "\<lfloor>r\<rfloor> = k - 1" unfolding 2 by (rule floor_unique) simp_all
    have "odd (k - 1)" using assms(2) by simp
    then show ?thesis using 2 fl by (simp add: round_half_even_def Let_def)
  qed
qed

lemma rhe_tie_even:
  assumes "\<bar>of_int (round_half_even r) - r\<bar> = 1 / 2"
  shows "even (round_half_even r)"
proof -
  let ?f = "\<lfloor>r\<rfloor>"
  have f: "of_int ?f \<le> r" "r < of_int ?f + 1" by linarith+
  show ?thesis
  proof (cases "r - of_int ?f < 1 / 2")
    case True
    then have "round_half_even r = ?f" by (simp add: round_half_even_def Let_def)
    with assms have "\<bar>of_int ?f - r\<bar> = 1 / 2" by simp
    with f(1) True have False by linarith
    then show ?thesis ..
  next
    case False
    show ?thesis
    proof (cases "1 / 2 < r - of_int ?f")
      case True
      then have "round_half_even r = ?f + 1" using False by (simp add: round_half_even_def Let_def)
      with assms have "\<bar>of_int (?f + 1) - r\<bar> = 1 / 2" by simp
      then have "\<bar>of_int ?f + 1 - r\<bar> = 1 / 2" by simp
      with f(2) True have False by linarith
      then show ?thesis ..
    next
      case F2: False
      then show ?thesis using False by (simp add: round_half_even_def Let_def)
    qed
  qed
qed

lemma rhe_neg: "round_half_even (- r) = - round_half_even r"
proof -
  let ?k = "round_half_even r"
  have e: "\<bar>of_int ?k - r\<bar> \<le> 1 / 2" by (rule rhe_err)
  show ?thesis
  proof (cases "\<bar>of_int ?k - r\<bar> < 1 / 2")
    case True
    then have "\<bar>- r - of_int (- ?k)\<bar> < 1 / 2" by simp
    then show ?thesis by (rule rhe_nearest)
  next
    case False
    with e have t: "\<bar>of_int ?k - r\<bar> = 1 / 2" by simp
    then have "even ?k" by (rule rhe_tie_even)
    then have ev: "even (- ?k)" by simp
    have "\<bar>- r - of_int (- ?k)\<bar> = 1 / 2" using t by simp
    then show ?thesis using ev by (rule rhe_tie)
  qed
qed

lemma rhe_mono:
  assumes "r \<le> s"
  shows "round_half_even r \<le> round_half_even s"
proof -
  let ?f = "\<lfloor>r\<rfloor>" and ?g = "\<lfloor>s\<rfloor>"
  have fg: "?f \<le> ?g" using assms by (rule floor_mono)
  show ?thesis
  proof (cases "?f = ?g")
    case True
    have "r - of_int ?f \<le> s - of_int ?g" using assms True by simp
    then show ?thesis using True by (auto simp: round_half_even_def Let_def)
  next
    case False
    with fg have "?f + 1 \<le> ?g" by simp
    moreover have "round_half_even r \<le> ?f + 1" using rhe_cases[of r] by auto
    moreover have "?g \<le> round_half_even s" using rhe_cases[of s] by auto
    ultimately show ?thesis by linarith
  qed
qed

subsection \<open>Rounding rationals to the binary64 grid\<close>

lemma ilog2_neg [simp]: "ilog2 (- x) = ilog2 x"
  by (simp add: ilog2_def)

lemma ulp_exp_neg [simp]: "ulp_exp (- x) = ulp_exp x"
  by (simp add: ulp_exp_def)

lemma round_rat_neg: "round_rat (- x) = - round_rat x"
  by (simp add: round_rat_def Let_def rhe_neg)

lemma rhe_0 [simp]: "round_half_even 0 = 0"
  using rhe_of_int[of 0] by simp

lemma round_rat_0 [simp]: "round_rat 0 = 0"
  by (simp add: round_rat_def Let_def)

lemma ulp_exp_ge: "- 1074 \<le> ulp_exp x"
  by (simp add: ulp_exp_def)

lemma ulp_exp_normal:
  assumes "2 powi e \<le> \<bar>x\<bar>" "\<bar>x\<bar> < 2 powi (e + 1)" "- 1022 \<le> e"
  shows "ulp_exp x = e - 52"
  using ilog2_unique[OF assms(1,2)] assms(3) by (simp add: ulp_exp_def)

lemma ulp_exp_subnormal:
  assumes "x \<noteq> 0" "\<bar>x\<bar> < 2 powi (- 1022)"
  shows "ulp_exp x = - 1074"
proof -
  from ilog2_bounds[OF assms(1)] have "2 powi ilog2 x \<le> \<bar>x\<bar>" by simp
  with assms(2) have "(2::rat) powi ilog2 x < 2 powi (- 1022)" by linarith
  then have "ilog2 x < - 1022" by (simp only: p2_less_iff)
  then show ?thesis by (simp add: ulp_exp_def)
qed

lemma ilog2_mono:
  assumes "x \<noteq> 0" "\<bar>x\<bar> \<le> \<bar>y\<bar>"
  shows "ilog2 x \<le> ilog2 y"
proof -
  have y: "y \<noteq> 0" using assms by auto
  from ilog2_bounds[OF assms(1)] have "2 powi ilog2 x \<le> \<bar>x\<bar>" by simp
  moreover from ilog2_bounds[OF y] have "\<bar>y\<bar> < 2 powi (ilog2 y + 1)" by simp
  ultimately have "(2::rat) powi ilog2 x < 2 powi (ilog2 y + 1)" using assms(2) by linarith
  then have "ilog2 x < ilog2 y + 1" by (simp only: p2_less_iff)
  then show ?thesis by simp
qed

lemma ulp_exp_mono:
  assumes "x \<noteq> 0" "\<bar>x\<bar> \<le> \<bar>y\<bar>"
  shows "ulp_exp x \<le> ulp_exp y"
  using ilog2_mono[OF assms] by (simp add: ulp_exp_def)

lemma round_rat_err: "\<bar>round_rat x - x\<bar> \<le> 2 powi (ulp_exp x - 1)"
proof -
  let ?U = "(2::rat) powi ulp_exp x"
  let ?k = "round_half_even (x / ?U)"
  have U: "0 < ?U" by simp
  have "\<bar>of_int ?k - x / ?U\<bar> \<le> 1 / 2" by (rule rhe_err)
  then have "\<bar>of_int ?k - x / ?U\<bar> * ?U \<le> 1 / 2 * ?U" using U by (simp only: mult_le_cancel_right_pos)
  moreover have "\<bar>of_int ?k - x / ?U\<bar> * ?U = \<bar>of_int ?k * ?U - x\<bar>"
  proof -
    have "\<bar>of_int ?k - x / ?U\<bar> * ?U = \<bar>(of_int ?k - x / ?U) * ?U\<bar>" using U by (simp add: abs_mult)
    also have "(of_int ?k - x / ?U) * ?U = of_int ?k * ?U - x" using U by (simp add: field_simps)
    finally show ?thesis .
  qed
  moreover have "1 / 2 * ?U = 2 powi (ulp_exp x - 1)" by (simp add: power_int_diff)
  ultimately show ?thesis by (simp add: round_rat_def Let_def)
qed

lemma round_rat_eqI:
  assumes "\<bar>x - of_int k * 2 powi ulp_exp x\<bar> < 2 powi (ulp_exp x - 1)"
  shows "round_rat x = of_int k * 2 powi ulp_exp x"
proof -
  let ?U = "(2::rat) powi ulp_exp x"
  have U: "0 < ?U" by simp
  have h: "2 powi (ulp_exp x - 1) = ?U / 2" by (simp add: power_int_diff)
  have "x / ?U - of_int k = (x - of_int k * ?U) / ?U" using U by (simp add: field_simps)
  then have "\<bar>x / ?U - of_int k\<bar> = \<bar>x - of_int k * ?U\<bar> / ?U" using U by (simp add: abs_divide del: times_divide_eq_left)
  also have "\<dots> < (?U / 2) / ?U" using assms U unfolding h by (simp only: divide_strict_right_mono)
  also have "\<dots> = 1 / 2" using U by simp
  finally have "round_half_even (x / ?U) = k" by (rule rhe_nearest)
  then show ?thesis by (simp add: round_rat_def Let_def)
qed

lemma round_rat_tieI:
  assumes "\<bar>x - of_int k * 2 powi ulp_exp x\<bar> = 2 powi (ulp_exp x - 1)" "even k"
  shows "round_rat x = of_int k * 2 powi ulp_exp x"
proof -
  let ?U = "(2::rat) powi ulp_exp x"
  have U: "0 < ?U" by simp
  have h: "2 powi (ulp_exp x - 1) = ?U / 2" by (simp add: power_int_diff)
  have "x / ?U - of_int k = (x - of_int k * ?U) / ?U" using U by (simp add: field_simps)
  then have "\<bar>x / ?U - of_int k\<bar> = \<bar>x - of_int k * ?U\<bar> / ?U" using U by (simp add: abs_divide del: times_divide_eq_left)
  also have "\<dots> = (?U / 2) / ?U" using assms(1) unfolding h by simp
  also have "\<dots> = 1 / 2" using U by simp
  finally have "round_half_even (x / ?U) = k" using assms(2) by (rule rhe_tie)
  then show ?thesis by (simp add: round_rat_def Let_def)
qed

lemma round_rat_exact:
  assumes "x = of_int k * 2 powi u" "ulp_exp x \<le> u"
  shows "round_rat x = x"
proof -
  define U where "U = (2::rat) powi ulp_exp x"
  define K where "K = k * 2 ^ nat (u - ulp_exp x)"
  have U: "0 < U" by (simp add: U_def)
  have "(2::rat) powi u = 2 powi (u - ulp_exp x) * U"
    by (simp add: U_def flip: power_int_add)
  also have "(2::rat) powi (u - ulp_exp x) = of_int (2 ^ nat (u - ulp_exp x))"
    using assms(2) by (simp add: power_int_nonneg_exp)
  finally have e: "x = of_int K * U"
    using assms(1) by (simp add: K_def)
  then have "x / U = of_int K" using U by simp
  then have "round_half_even (x / U) = K"
    by (simp only: rhe_of_int)
  then have "round_rat x = of_int K * U"
    by (simp only: round_rat_def U_def Let_def)
  with e show ?thesis by simp
qed

lemma round_rat_nonneg:
  assumes "0 \<le> x"
  shows "0 \<le> round_rat x"
proof -
  let ?U = "(2::rat) powi ulp_exp x"
  have "0 \<le> x / ?U" using assms by simp
  then have "round_half_even 0 \<le> round_half_even (x / ?U)" by (rule rhe_mono)
  moreover have "round_half_even 0 = 0" using rhe_of_int[of 0] by simp
  ultimately have "0 \<le> round_half_even (x / ?U)" by simp
  then show ?thesis by (simp add: round_rat_def Let_def)
qed

lemma round_rat_mult_ulp:
  "round_rat x = of_int (round_half_even (x / 2 powi ulp_exp x)) * 2 powi ulp_exp x"
  by (simp add: round_rat_def Let_def)

lemma ulp_exp_cases:
  assumes "x \<noteq> 0"
  shows "(ulp_exp x = ilog2 x - 52 \<and> - 1022 \<le> ilog2 x) \<or> (ulp_exp x = - 1074 \<and> ilog2 x < - 1022)"
  by (auto simp: ulp_exp_def)

lemma abs_lt_ulp_top:
  assumes "x \<noteq> 0"
  shows "\<bar>x\<bar> < 2 powi (ulp_exp x + 53)"
proof -
  from ilog2_bounds[OF assms] have "\<bar>x\<bar> < 2 powi (ilog2 x + 1)" by simp
  also have "(2::rat) powi (ilog2 x + 1) \<le> 2 powi (ulp_exp x + 53)"
    unfolding p2_le_iff by (simp add: ulp_exp_def)
  finally show ?thesis .
qed

lemma round_rat_err_rel: "\<bar>round_rat x - x\<bar> \<le> \<bar>x\<bar> / 2 ^ 53 + 1 / 2 ^ 1075"
proof (cases "x = 0")
  case True
  then show ?thesis by simp
next
  case False
  have e: "\<bar>round_rat x - x\<bar> \<le> 2 powi (ulp_exp x - 1)" by (rule round_rat_err)
  from ulp_exp_cases[OF False] show ?thesis
  proof
    assume a: "ulp_exp x = ilog2 x - 52 \<and> - 1022 \<le> ilog2 x"
    have "ulp_exp x - 1 = ilog2 x + (- 53)" using a by simp
    then have "(2::rat) powi (ulp_exp x - 1) = 2 powi (ilog2 x + (- 53))" by (rule arg_cong)
    also have "\<dots> = 2 powi ilog2 x * 2 powi (- 53)" by (rule power_int_add) simp
    also have "\<dots> \<le> \<bar>x\<bar> * 2 powi (- 53)"
      using ilog2_bounds[OF False] by (simp only: mult_le_cancel_right_pos zero_less_power_int zero_less_numeral)
    also have "\<dots> = \<bar>x\<bar> / 2 ^ 53" by (simp add: power_int_minus_divide)
    finally have "\<bar>round_rat x - x\<bar> \<le> \<bar>x\<bar> / 2 ^ 53" using e by (rule order_trans[rotated])
    then show ?thesis by (rule order_trans) simp
  next
    assume a: "ulp_exp x = - 1074 \<and> ilog2 x < - 1022"
    have "(2::rat) powi (ulp_exp x - 1) = 1 / 2 ^ 1075"
      using a by (simp add: power_int_minus_divide)
    with e have "\<bar>round_rat x - x\<bar> \<le> 1 / 2 ^ 1075" by simp
    then show ?thesis by (rule order_trans) simp
  qed
qed

lemma round_rat_upper:
  assumes "0 < x"
  shows "round_rat x \<le> 2 powi (ulp_exp x + 53)"
proof -
  define U where "U = (2::rat) powi ulp_exp x"
  have U: "0 < U" by (simp add: U_def)
  have x0: "x \<noteq> 0" using assms by simp
  have "x < 2 powi (ulp_exp x + 53)" using abs_lt_ulp_top[OF x0] assms by simp
  also have "\<dots> = of_int (2 ^ 53) * U" by (simp add: U_def power_int_add)
  finally have "x / U \<le> of_int (2 ^ 53)" using U by (simp add: field_simps)
  then have "round_half_even (x / U) \<le> round_half_even (of_int (2 ^ 53))" by (rule rhe_mono)
  then have "round_half_even (x / U) \<le> 2 ^ 53" by (simp only: rhe_of_int)
  then have "(of_int (round_half_even (x / U)) :: rat) \<le> of_int (2 ^ 53)" by (simp only: of_int_le_iff)
  then have "of_int (round_half_even (x / U)) * U \<le> of_int (2 ^ 53) * U"
    using U by (simp only: mult_le_cancel_right_pos)
  then show ?thesis unfolding round_rat_mult_ulp by (simp add: U_def power_int_add)
qed

lemma round_rat_lower:
  assumes "0 < x" "- 1022 \<le> ilog2 x"
  shows "2 powi (ulp_exp x + 52) \<le> round_rat x"
proof -
  define U where "U = (2::rat) powi ulp_exp x"
  have U: "0 < U" by (simp add: U_def)
  have x0: "x \<noteq> 0" using assms by simp
  have u: "ulp_exp x + 52 = ilog2 x" using assms(2) by (simp add: ulp_exp_def)
  have "2 powi (ulp_exp x + 52) \<le> x" using ilog2_bounds[OF x0] assms(1) u by simp
  moreover have "(2::rat) powi (ulp_exp x + 52) = of_int (2 ^ 52) * U" by (simp add: U_def power_int_add)
  ultimately have "of_int (2 ^ 52) \<le> x / U" using U by (simp add: field_simps)
  then have "round_half_even (of_int (2 ^ 52)) \<le> round_half_even (x / U)" by (rule rhe_mono)
  then have "2 ^ 52 \<le> round_half_even (x / U)" by (simp only: rhe_of_int)
  then have "(of_int (2 ^ 52) :: rat) \<le> of_int (round_half_even (x / U))" by (simp only: of_int_le_iff)
  then have "of_int (2 ^ 52) * U \<le> of_int (round_half_even (x / U)) * U"
    using U by (simp only: mult_le_cancel_right_pos)
  then show ?thesis unfolding round_rat_mult_ulp by (simp add: U_def power_int_add)
qed

lemma round_rat_mono_pos:
  assumes "0 < x" "x \<le> y"
  shows "round_rat x \<le> round_rat y"
proof -
  have x0: "x \<noteq> 0" and y0: "y \<noteq> 0" and ypos: "0 < y" using assms by simp_all
  have le: "ulp_exp x \<le> ulp_exp y" using assms by (intro ulp_exp_mono) simp_all
  show ?thesis
  proof (cases "ulp_exp x = ulp_exp y")
    case True
    define U where "U = (2::rat) powi ulp_exp x"
    have U: "0 < U" by (simp add: U_def)
    have "x / U \<le> y / U" using assms(2) U by (simp add: divide_right_mono)
    then have "round_half_even (x / U) \<le> round_half_even (y / U)" by (rule rhe_mono)
    then have "(of_int (round_half_even (x / U)) :: rat) \<le> of_int (round_half_even (y / U))"
      by (simp only: of_int_le_iff)
    then have "of_int (round_half_even (x / U)) * U \<le> of_int (round_half_even (y / U)) * U"
      using U by (simp only: mult_le_cancel_right_pos)
    then show ?thesis unfolding round_rat_mult_ulp True[symmetric] U_def .
  next
    case False
    with le have lt: "ulp_exp x < ulp_exp y" by simp
    have "- 1074 \<le> ulp_exp x" by (rule ulp_exp_ge)
    with lt have "- 1074 < ulp_exp y" by simp
    then have ny: "- 1022 \<le> ilog2 y" using ulp_exp_cases[OF y0] by auto
    have "round_rat x \<le> 2 powi (ulp_exp x + 53)" using assms(1) by (rule round_rat_upper)
    also have "(2::rat) powi (ulp_exp x + 53) \<le> 2 powi (ulp_exp y + 52)"
      unfolding p2_le_iff using lt by simp
    also have "\<dots> \<le> round_rat y" using ypos ny by (rule round_rat_lower)
    finally show ?thesis .
  qed
qed

lemma round_rat_mono:
  assumes "x \<le> y"
  shows "round_rat x \<le> round_rat y"
proof -
  consider "0 < x" | "x \<le> 0" "0 \<le> y" | "y < 0" by linarith
  then show ?thesis
  proof cases
    case 1
    then show ?thesis using assms by (rule round_rat_mono_pos)
  next
    case 2
    have "round_rat x \<le> 0" using round_rat_nonneg[of "- x"] 2(1) by (simp add: round_rat_neg)
    moreover have "0 \<le> round_rat y" using 2(2) by (rule round_rat_nonneg)
    ultimately show ?thesis by simp
  next
    case 3
    have "round_rat (- y) \<le> round_rat (- x)" using 3 assms by (intro round_rat_mono_pos) simp_all
    then show ?thesis by (simp add: round_rat_neg)
  qed
qed

lemma round_rat_idem [simp]: "round_rat (round_rat x) = round_rat x"
proof (cases "x = 0")
  case True
  then show ?thesis by simp
next
  case False
  have pos: "round_rat (round_rat x) = round_rat x" if x: "0 < x" for x
  proof -
    define u where "u = ulp_exp x"
    define U where "U = (2::rat) powi u"
    define K where "K = round_half_even (x / U)"
    have U: "0 < U" by (simp add: U_def)
    have r: "round_rat x = of_int K * U" by (simp add: round_rat_mult_ulp K_def U_def u_def)
    have K0: "0 \<le> K"
    proof -
      have "0 \<le> round_rat x" using x by (intro round_rat_nonneg) simp
      then show ?thesis unfolding r using U by (simp add: zero_le_mult_iff)
    qed
    have up: "round_rat x \<le> 2 powi (u + 53)" unfolding u_def using x by (rule round_rat_upper)
    show ?thesis
    proof (cases "round_rat x = 2 powi (u + 53)")
      case True
      have e: "round_rat x = of_int 1 * 2 powi (u + 53)" using True by simp
      have a: "\<bar>round_rat x\<bar> = 2 powi (u + 53)" using True by simp
      have "ilog2 (round_rat x) = u + 53"
        by (rule ilog2_unique) (simp_all add: a p2_less_iff)
      moreover have "- 1074 \<le> u" unfolding u_def by (rule ulp_exp_ge)
      ultimately have "ulp_exp (round_rat x) \<le> u + 53" by (simp add: ulp_exp_def)
      with e show ?thesis by (rule round_rat_exact)
    next
      case ne: False
      show ?thesis
      proof (cases "round_rat x = 0")
        case True
        then show ?thesis by simp
      next
        case nz: False
        have lt: "\<bar>round_rat x\<bar> < 2 powi (u + 53)" using up ne K0 r U by (simp add: abs_mult)
        from ilog2_bounds[OF nz] have "2 powi ilog2 (round_rat x) \<le> \<bar>round_rat x\<bar>" by simp
        with lt have "(2::rat) powi ilog2 (round_rat x) < 2 powi (u + 53)" by linarith
        then have "ilog2 (round_rat x) < u + 53" by (simp only: p2_less_iff)
        moreover have "- 1074 \<le> u" unfolding u_def by (rule ulp_exp_ge)
        ultimately have "ulp_exp (round_rat x) \<le> u" by (simp add: ulp_exp_def)
        with r[unfolded U_def] show ?thesis by (rule round_rat_exact)
      qed
    qed
  qed
  show ?thesis
  proof (cases "0 < x")
    case True
    then show ?thesis by (rule pos)
  next
    case F: False
    with False have "0 < - x" by simp
    from pos[OF this] show ?thesis by (simp add: round_rat_neg)
  qed
qed


subsection \<open>Rounding to a float: finiteness, monotonicity, certificates\<close>

lemma p2_add: "(2::rat) powi (a + b) = 2 powi a * 2 powi b"
  by (rule power_int_add) simp

lemma rnd_Fin_iff: "rnd x = Fin y \<longleftrightarrow> y = round_rat x \<and> \<bar>round_rat x\<bar> < 2 ^ 1024"
  by (auto simp: rnd_def Let_def abs_if)

lemma rnd_finite: "\<bar>round_rat x\<bar> < 2 ^ 1024 \<Longrightarrow> rnd x = Fin (round_rat x)"
  by (simp add: rnd_Fin_iff)

lemma is_double_iff: "is_double x \<longleftrightarrow> round_rat x = x \<and> \<bar>x\<bar> < 2 ^ 1024"
  by (auto simp: is_double_def rnd_Fin_iff)

lemma rnd_double: "is_double x \<Longrightarrow> rnd x = Fin x"
  by (simp add: is_double_def)

lemma rnd_Fin_double: "rnd x = Fin y \<Longrightarrow> is_double y"
  by (auto simp: rnd_Fin_iff is_double_iff)

lemma is_double_0 [simp]: "is_double 0"
  by (simp add: is_double_iff)

lemma is_double_neg [simp]: "is_double (- x) \<longleftrightarrow> is_double x"
  by (auto simp: is_double_iff round_rat_neg)

lemma is_double_abs [simp]: "is_double \<bar>x\<bar> \<longleftrightarrow> is_double x"
  by (simp add: abs_if)

lemma float_neg_rnd: "float_neg (rnd x) = rnd (- x)"
  by (simp add: rnd_def Let_def round_rat_neg)

lemma float_abs_rnd: "float_abs (rnd x) = rnd \<bar>x\<bar>"
proof (cases "0 \<le> x")
  case True
  then have "0 \<le> round_rat x" by (rule round_rat_nonneg)
  then show ?thesis using True by (simp add: rnd_def Let_def)
next
  case False
  then have "0 \<le> round_rat (- x)" by (intro round_rat_nonneg) simp
  then have "round_rat x \<le> 0" by (simp add: round_rat_neg)
  then show ?thesis using False by (auto simp: rnd_def Let_def round_rat_neg)
qed

lemma rnd_mono:
  assumes "x \<le> y"
  shows "float_le (rnd x) (rnd y)"
  using round_rat_mono[OF assms] by (auto simp: rnd_def Let_def)

lemma round_rat_le_double:
  assumes "x \<le> d" "is_double d"
  shows "round_rat x \<le> d"
  using round_rat_mono[OF assms(1)] assms(2) by (simp add: is_double_iff)

lemma round_rat_ge_double:
  assumes "d \<le> x" "is_double d"
  shows "d \<le> round_rat x"
  using round_rat_mono[OF assms(1)] assms(2) by (simp add: is_double_iff)

lemma is_double_pow2:
  assumes "- 1074 \<le> k" "k \<le> 1023"
  shows "is_double (2 powi k)"
proof -
  have a: "\<bar>(2::rat) powi k\<bar> = 2 powi k" by simp
  have "ilog2 (2 powi k) = k" by (rule ilog2_unique) (simp_all add: a p2_less_iff)
  then have "ulp_exp (2 powi k) \<le> k" using assms(1) by (simp add: ulp_exp_def)
  moreover have "(2::rat) powi k = of_int 1 * 2 powi k" by simp
  ultimately have "round_rat (2 powi k) = 2 powi k" by (rule round_rat_exact[rotated])
  moreover have "(2::rat) powi k < 2 powi 1024" unfolding p2_less_iff using assms(2) by simp
  ultimately show ?thesis by (simp add: is_double_iff)
qed

lemma is_double_grid:
  assumes "is_double x"
  shows "\<exists>j. x = of_int j / 2 ^ 1074"
proof -
  define u where "u = ulp_exp x"
  define K where "K = round_half_even (x / 2 powi u)"
  define P where "P = (2::int) ^ nat (u + 1074)"
  have u: "- 1074 \<le> u" unfolding u_def by (rule ulp_exp_ge)
  have "round_rat x = of_int K * 2 powi u"
    by (simp add: round_rat_mult_ulp u_def K_def)
  then have x: "x = of_int K * 2 powi u" using assms by (simp add: is_double_iff)
  have "(2::rat) powi u = 2 powi (u + 1074) * 2 powi (- 1074)"
    using p2_add[of "u + 1074" "- 1074"] by simp
  also have "(2::rat) powi (u + 1074) = of_int P"
    using u by (simp add: power_int_nonneg_exp P_def)
  also have "(2::rat) powi (- 1074) = 1 / 2 ^ 1074"
    by (simp add: power_int_minus_divide)
  finally have "x = of_int (K * P) / 2 ^ 1074" using x by simp
  then show ?thesis ..
qed

lemma ulp_exp_cert:
  assumes "2 powi (u + 52) \<le> \<bar>x\<bar>" and "\<bar>x\<bar> < 2 powi (u + 53)" and "- 1074 \<le> u"
  shows "ulp_exp x = u"
proof -
  have e: "u + 52 + 1 = u + 53" by simp
  have "ulp_exp x = u + 52 - 52"
  proof (rule ulp_exp_normal)
    show "2 powi (u + 52) \<le> \<bar>x\<bar>" by fact
    show "\<bar>x\<bar> < 2 powi (u + 52 + 1)" unfolding e by fact
    show "- 1022 \<le> u + 52" using assms(3) by simp
  qed
  then show ?thesis by simp
qed

lemma rnd_ulp_eqI:
  assumes "ulp_exp x = u" and "y = of_int k * 2 powi u"
    and "\<bar>x - y\<bar> < 2 powi (u - 1)" and "\<bar>y\<bar> < 2 ^ 1024"
  shows "rnd x = Fin y"
proof -
  have "\<bar>x - of_int k * 2 powi ulp_exp x\<bar> < 2 powi (ulp_exp x - 1)"
    unfolding assms(1) using assms(2,3) by simp
  then have "round_rat x = of_int k * 2 powi ulp_exp x" by (rule round_rat_eqI)
  then have "round_rat x = y" unfolding assms(1) using assms(2) by simp
  then show ?thesis using assms(4) by (simp add: rnd_Fin_iff)
qed

lemma rnd_ulp_tieI:
  assumes "ulp_exp x = u" and "y = of_int k * 2 powi u"
    and "\<bar>x - y\<bar> = 2 powi (u - 1)" and "even k" and "\<bar>y\<bar> < 2 ^ 1024"
  shows "rnd x = Fin y"
proof -
  have "\<bar>x - of_int k * 2 powi ulp_exp x\<bar> = 2 powi (ulp_exp x - 1)"
    unfolding assms(1) using assms(2,3) by simp
  then have "round_rat x = of_int k * 2 powi ulp_exp x" using assms(4) by (rule round_rat_tieI)
  then have "round_rat x = y" unfolding assms(1) using assms(2) by simp
  then show ?thesis using assms(5) by (simp add: rnd_Fin_iff)
qed

lemma rnd_eqI:
  assumes "y = of_int k * 2 powi u"
    and "2 powi (u + 52) \<le> \<bar>x\<bar>" and "\<bar>x\<bar> < 2 powi (u + 53)" and "- 1074 \<le> u"
    and "\<bar>x - y\<bar> < 2 powi (u - 1)"
    and "\<bar>y\<bar> < 2 ^ 1024"
  shows "rnd x = Fin y"
  using ulp_exp_cert[OF assms(2,3,4)] assms(1,5,6) by (rule rnd_ulp_eqI)

lemma rnd_tieI:
  assumes "y = of_int k * 2 powi u"
    and "2 powi (u + 52) \<le> \<bar>x\<bar>" and "\<bar>x\<bar> < 2 powi (u + 53)" and "- 1074 \<le> u"
    and "\<bar>x - y\<bar> = 2 powi (u - 1)" and "even k"
    and "\<bar>y\<bar> < 2 ^ 1024"
  shows "rnd x = Fin y"
  using ulp_exp_cert[OF assms(2,3,4)] assms(1,5,6,7) by (rule rnd_ulp_tieI)

lemma rnd_sub_eqI:
  assumes "y = of_int k * 2 powi (- 1074)" and "x \<noteq> 0" and "\<bar>x\<bar> < 2 powi (- 1022)"
    and "\<bar>x - y\<bar> < 2 powi (- 1074 - 1)" and "\<bar>y\<bar> < 2 ^ 1024"
  shows "rnd x = Fin y"
  using ulp_exp_subnormal[OF assms(2,3)] assms(1,4,5) by (rule rnd_ulp_eqI)

lemma rnd_sub_tieI:
  assumes "y = of_int k * 2 powi (- 1074)" and "x \<noteq> 0" and "\<bar>x\<bar> < 2 powi (- 1022)"
    and "\<bar>x - y\<bar> = 2 powi (- 1074 - 1)" and "even k" and "\<bar>y\<bar> < 2 ^ 1024"
  shows "rnd x = Fin y"
  using ulp_exp_subnormal[OF assms(2,3)] assms(1,4,5,6) by (rule rnd_ulp_tieI)

lemma rnd_0 [simp]: "rnd 0 = Fin 0"
  by (simp add: rnd_def)


subsection \<open>The closeness test on finite floats, and one turn of the loop\<close>

lemma rel_tol_default_eq: "rel_tol_default = Fin rel_tol_val"
  unfolding rel_tol_default_def rel_tol_val_def
  by (rule rnd_eqI[where k = 4835703278458517 and u = "- 82"]) simp_all

lemma rel_tol_val_pos: "0 < rel_tol_val"
  by (simp add: rel_tol_val_def)

lemma round_rat_strict:
  assumes "0 \<le> x" "4 * x \<le> y" "2 powi (- 1072) \<le> y"
  shows "round_rat x < round_rat y"
proof -
  define h where "h = (1::rat) / 2 ^ 53"
  define eta where "eta = (1::rat) / 2 ^ 1075"
  have y: "8 * eta \<le> y" using assms(3) by (simp add: eta_def power_int_minus_divide)
  have y0: "0 \<le> y" using assms(1,2) by linarith
  have ex: "\<bar>round_rat x - x\<bar> \<le> \<bar>x\<bar> * h + eta"
    using round_rat_err_rel[of x] by (simp add: h_def eta_def)
  have ey: "\<bar>round_rat y - y\<bar> \<le> \<bar>y\<bar> * h + eta"
    using round_rat_err_rel[of y] by (simp add: h_def eta_def)
  have h: "0 < h" "h \<le> 1 / 8" by (simp_all add: h_def)
  have e0: "0 < eta" by (simp add: eta_def)
  have 1: "round_rat x \<le> x + x * h + eta" using ex assms(1) by (simp add: abs_le_iff)
  have 2: "y - y * h - eta \<le> round_rat y" using ey y0 by (simp add: abs_le_iff)
  have xh: "x * h \<le> x * (1 / 8)" using h(2) assms(1) by (rule mult_left_mono)
  have yh: "y * h \<le> y * (1 / 8)" using h(2) y0 by (rule mult_left_mono)
  from 1 2 xh yh assms(2) y e0 show ?thesis by linarith
qed

lemma rnd_strict:
  assumes "0 \<le> x" "4 * x \<le> y" "2 powi (- 1072) \<le> y" "x < 2 ^ 1023"
  shows "\<not> float_le (rnd y) (rnd x)"
proof -
  have lt: "round_rat x < round_rat y" using assms(1,2,3) by (rule round_rat_strict)
  have d: "is_double (2 powi 1023)" by (rule is_double_pow2) simp_all
  have "round_rat x \<le> 2 powi 1023" using assms(4) by (intro round_rat_le_double d) simp
  then have fx: "round_rat x < 2 ^ 1024" by simp
  have "0 \<le> round_rat x" using assms(1) by (rule round_rat_nonneg)
  with fx lt show ?thesis by (auto simp: rnd_def Let_def)
qed

lemma float_sub_Fin: "float_sub (Fin b) (Fin a) = rnd (b - a)"
  by (simp add: float_sub_def)

lemma isclose_Fin:
  "isclose (Fin a) (Fin b) \<longleftrightarrow>
     a = b \<or> float_le (rnd \<bar>b - a\<bar>) (rnd (rel_tol_val * \<bar>b\<bar>))
           \<or> float_le (rnd \<bar>b - a\<bar>) (rnd (rel_tol_val * \<bar>a\<bar>))
           \<or> float_le (rnd \<bar>b - a\<bar>) (Fin 0)"
  using rel_tol_val_pos
  by (simp add: isclose_def isclose_impl_def float_eq_def is_inf_def float_sub_Fin
      float_abs_rnd rel_tol_default_eq abs_tol_default_def abs_mult Let_def)

lemma isclose_TrueI:
  assumes "\<bar>b - a\<bar> \<le> rel_tol_val * \<bar>b\<bar>"
  shows "isclose (Fin a) (Fin b)"
  using rnd_mono[OF assms] by (simp add: isclose_Fin)

lemma isclose_FalseI:
  assumes "a \<noteq> b" "2 powi (- 1072) \<le> \<bar>b - a\<bar>"
    and "4 * (rel_tol_val * \<bar>a\<bar>) \<le> \<bar>b - a\<bar>" "4 * (rel_tol_val * \<bar>b\<bar>) \<le> \<bar>b - a\<bar>"
    and "\<bar>a\<bar> < 2 ^ 1024" "\<bar>b\<bar> < 2 ^ 1024"
  shows "\<not> isclose (Fin a) (Fin b)"
proof -
  have r: "rel_tol_val \<le> 1 / 2" by (simp add: rel_tol_val_def)
  have "rel_tol_val * \<bar>a\<bar> \<le> 1 / 2 * \<bar>a\<bar>" using r by (rule mult_right_mono) simp
  then have fa: "rel_tol_val * \<bar>a\<bar> < 2 ^ 1023" using assms(5) by simp
  have "rel_tol_val * \<bar>b\<bar> \<le> 1 / 2 * \<bar>b\<bar>" using r by (rule mult_right_mono) simp
  then have fb: "rel_tol_val * \<bar>b\<bar> < 2 ^ 1023" using assms(6) by simp
  have pa: "0 \<le> rel_tol_val * \<bar>a\<bar>" and pb: "0 \<le> rel_tol_val * \<bar>b\<bar>"
    using rel_tol_val_pos by simp_all
  have 1: "\<not> float_le (rnd \<bar>b - a\<bar>) (rnd (rel_tol_val * \<bar>b\<bar>))"
    using pb assms(4,2) fb by (rule rnd_strict)
  have 2: "\<not> float_le (rnd \<bar>b - a\<bar>) (rnd (rel_tol_val * \<bar>a\<bar>))"
    using pa assms(3,2) fa by (rule rnd_strict)
  have "\<not> float_le (rnd \<bar>b - a\<bar>) (rnd 0)"
    by (rule rnd_strict) (use assms(2) in simp_all)
  then have 3: "\<not> float_le (rnd \<bar>b - a\<bar>) (Fin 0)" by simp
  from 1 2 3 assms(1) show ?thesis by (simp add: isclose_Fin)
qed

lemma newton_loop_raise:
  assumes "float_truediv n guess = Inl e"
  shows "newton_loop n verbose guess out = Some (if verbose then out @ [guess] else out, Inl e)"
  by (subst newton_loop.simps) (simp add: assms)

lemma float_truediv_2: "float_truediv a (Fin 2) = Inr (float_quot a (Fin 2))"
  by (simp add: float_truediv_def)

lemma newton_loop_return:
  assumes "float_truediv n guess = Inr q"
    and "float_quot (float_add guess q) (Fin 2) = better_guess"
    and "isclose guess better_guess"
  shows "newton_loop n verbose guess out
         = Some (if verbose then out @ [guess] else out, Inr better_guess)"
  by (subst newton_loop.simps) (simp add: assms float_truediv_2)

lemma newton_loop_continue:
  assumes "float_truediv n guess = Inr q"
    and "float_quot (float_add guess q) (Fin 2) = better_guess"
    and "\<not> isclose guess better_guess"
  shows "newton_loop n verbose guess out
         = newton_loop n verbose better_guess (if verbose then out @ [guess] else out)"
  by (subst newton_loop.simps) (simp add: assms float_truediv_2)


section \<open>Runs of the solver on the inputs of the notebook\<close>

text \<open>
  Each turn of the loop is replayed with the three roundings it performs; every rounding is
  justified by its integer significand and the exponent of its last place.
\<close>

subsection \<open>\<open>newton_sqrt(100)\<close>\<close>

lemma loop_100_0:
  "newton_loop (Fin 100) v (Fin 50) out
   = newton_loop (Fin 100) v (Fin 26) (if v then out @ [Fin 50] else out)"
proof (rule newton_loop_continue[where q = "Fin 2"])
  have "rnd (100 / 50) = Fin 2"
    by (rule rnd_eqI[where k = "4503599627370496" and u = "- 51"]) simp_all
  then show "float_truediv (Fin 100) (Fin 50) = Inr (Fin 2)"
    by (simp add: float_truediv_def)
  have t: "rnd (50 + 2) = Fin 52"
    by (rule rnd_eqI[where k = "7318349394477056" and u = "- 47"]) simp_all
  have b: "rnd (52 / 2) = Fin 26"
    by (rule rnd_eqI[where k = "7318349394477056" and u = "- 48"]) simp_all
  show "float_quot (float_add (Fin 50) (Fin 2)) (Fin 2) = Fin 26"
    using t b by simp
  show "\<not> isclose (Fin 50) (Fin 26)"
    by (rule isclose_FalseI) (simp_all add: rel_tol_val_def)
qed

lemma loop_100_1:
  "newton_loop (Fin 100) v (Fin 26) out
   = newton_loop (Fin 100) v (Fin (4200472729374405 / 281474976710656)) (if v then out @ [Fin 26] else out)"
proof (rule newton_loop_continue[where q = "Fin (8660768514174031 / 2251799813685248)"])
  have "rnd (100 / 26) = Fin (8660768514174031 / 2251799813685248)"
    by (rule rnd_eqI[where k = "8660768514174031" and u = "- 51"]) simp_all
  then show "float_truediv (Fin 100) (Fin 26) = Inr (Fin (8660768514174031 / 2251799813685248))"
    by (simp add: float_truediv_def)
  have t: "rnd (26 + (8660768514174031 / 2251799813685248)) = Fin (4200472729374405 / 140737488355328)"
    by (rule rnd_eqI[where k = "8400945458748810" and u = "- 48"]) simp_all
  have b: "rnd ((4200472729374405 / 140737488355328) / 2) = Fin (4200472729374405 / 281474976710656)"
    by (rule rnd_eqI[where k = "8400945458748810" and u = "- 49"]) simp_all
  show "float_quot (float_add (Fin 26) (Fin (8660768514174031 / 2251799813685248))) (Fin 2) = Fin (4200472729374405 / 281474976710656)"
    using t b by simp
  show "\<not> isclose (Fin 26) (Fin (4200472729374405 / 281474976710656))"
    by (rule isclose_FalseI) (simp_all add: rel_tol_val_def)
qed

lemma loop_100_2:
  "newton_loop (Fin 100) v (Fin (4200472729374405 / 281474976710656)) out
   = newton_loop (Fin 100) v (Fin (3043322626862081 / 281474976710656)) (if v then out @ [Fin (4200472729374405 / 281474976710656)] else out)"
proof (rule newton_loop_continue[where q = "Fin (7544690097399027 / 1125899906842624)"])
  have "rnd (100 / (4200472729374405 / 281474976710656)) = Fin (7544690097399027 / 1125899906842624)"
    by (rule rnd_eqI[where k = "7544690097399027" and u = "- 50"]) simp_all
  then show "float_truediv (Fin 100) (Fin (4200472729374405 / 281474976710656)) = Inr (Fin (7544690097399027 / 1125899906842624))"
    by (simp add: float_truediv_def)
  have t: "rnd ((4200472729374405 / 281474976710656) + (7544690097399027 / 1125899906842624)) = Fin (3043322626862081 / 140737488355328)"
    by (rule rnd_eqI[where k = "6086645253724162" and u = "- 48"]) simp_all
  have b: "rnd ((3043322626862081 / 140737488355328) / 2) = Fin (3043322626862081 / 281474976710656)"
    by (rule rnd_eqI[where k = "6086645253724162" and u = "- 49"]) simp_all
  show "float_quot (float_add (Fin (4200472729374405 / 281474976710656)) (Fin (7544690097399027 / 1125899906842624))) (Fin 2) = Fin (3043322626862081 / 281474976710656)"
    using t b by simp
  show "\<not> isclose (Fin (4200472729374405 / 281474976710656)) (Fin (3043322626862081 / 281474976710656))"
    by (rule isclose_FalseI) (simp_all add: rel_tol_val_def)
qed

lemma loop_100_3:
  "newton_loop (Fin 100) v (Fin (3043322626862081 / 281474976710656)) out
   = newton_loop (Fin 100) v (Fin (2823333403911227 / 281474976710656)) (if v then out @ [Fin (3043322626862081 / 281474976710656)] else out)"
proof (rule newton_loop_continue[where q = "Fin (5206688361920745 / 562949953421312)"])
  have "rnd (100 / (3043322626862081 / 281474976710656)) = Fin (5206688361920745 / 562949953421312)"
    by (rule rnd_eqI[where k = "5206688361920745" and u = "- 49"]) simp_all
  then show "float_truediv (Fin 100) (Fin (3043322626862081 / 281474976710656)) = Inr (Fin (5206688361920745 / 562949953421312))"
    by (simp add: float_truediv_def)
  have t: "rnd ((3043322626862081 / 281474976710656) + (5206688361920745 / 562949953421312)) = Fin (2823333403911227 / 140737488355328)"
    by (rule rnd_tieI[where k = "5646666807822454" and u = "- 48"]) simp_all
  have b: "rnd ((2823333403911227 / 140737488355328) / 2) = Fin (2823333403911227 / 281474976710656)"
    by (rule rnd_eqI[where k = "5646666807822454" and u = "- 49"]) simp_all
  show "float_quot (float_add (Fin (3043322626862081 / 281474976710656)) (Fin (5206688361920745 / 562949953421312))) (Fin 2) = Fin (2823333403911227 / 281474976710656)"
    using t b by simp
  show "\<not> isclose (Fin (3043322626862081 / 281474976710656)) (Fin (2823333403911227 / 281474976710656))"
    by (rule isclose_FalseI) (simp_all add: rel_tol_val_def)
qed

lemma loop_100_4:
  "newton_loop (Fin 100) v (Fin (2823333403911227 / 281474976710656)) out
   = newton_loop (Fin 100) v (Fin (2814762815303541 / 281474976710656)) (if v then out @ [Fin (2823333403911227 / 281474976710656)] else out)"
proof (rule newton_loop_continue[where q = "Fin (2806192226695855 / 281474976710656)"])
  have "rnd (100 / (2823333403911227 / 281474976710656)) = Fin (2806192226695855 / 281474976710656)"
    by (rule rnd_eqI[where k = "5612384453391710" and u = "- 49"]) simp_all
  then show "float_truediv (Fin 100) (Fin (2823333403911227 / 281474976710656)) = Inr (Fin (2806192226695855 / 281474976710656))"
    by (simp add: float_truediv_def)
  have t: "rnd ((2823333403911227 / 281474976710656) + (2806192226695855 / 281474976710656)) = Fin (2814762815303541 / 140737488355328)"
    by (rule rnd_eqI[where k = "5629525630607082" and u = "- 48"]) simp_all
  have b: "rnd ((2814762815303541 / 140737488355328) / 2) = Fin (2814762815303541 / 281474976710656)"
    by (rule rnd_eqI[where k = "5629525630607082" and u = "- 49"]) simp_all
  show "float_quot (float_add (Fin (2823333403911227 / 281474976710656)) (Fin (2806192226695855 / 281474976710656))) (Fin 2) = Fin (2814762815303541 / 281474976710656)"
    using t b by simp
  show "\<not> isclose (Fin (2823333403911227 / 281474976710656)) (Fin (2814762815303541 / 281474976710656))"
    by (rule isclose_FalseI) (simp_all add: rel_tol_val_def)
qed

lemma loop_100_5:
  "newton_loop (Fin 100) v (Fin (2814762815303541 / 281474976710656)) out
   = newton_loop (Fin 100) v (Fin (2814749767136803 / 281474976710656)) (if v then out @ [Fin (2814762815303541 / 281474976710656)] else out)"
proof (rule newton_loop_continue[where q = "Fin (5629473437940131 / 562949953421312)"])
  have "rnd (100 / (2814762815303541 / 281474976710656)) = Fin (5629473437940131 / 562949953421312)"
    by (rule rnd_eqI[where k = "5629473437940131" and u = "- 49"]) simp_all
  then show "float_truediv (Fin 100) (Fin (2814762815303541 / 281474976710656)) = Inr (Fin (5629473437940131 / 562949953421312))"
    by (simp add: float_truediv_def)
  have t: "rnd ((2814762815303541 / 281474976710656) + (5629473437940131 / 562949953421312)) = Fin (2814749767136803 / 140737488355328)"
    by (rule rnd_tieI[where k = "5629499534273606" and u = "- 48"]) simp_all
  have b: "rnd ((2814749767136803 / 140737488355328) / 2) = Fin (2814749767136803 / 281474976710656)"
    by (rule rnd_eqI[where k = "5629499534273606" and u = "- 49"]) simp_all
  show "float_quot (float_add (Fin (2814762815303541 / 281474976710656)) (Fin (5629473437940131 / 562949953421312))) (Fin 2) = Fin (2814749767136803 / 281474976710656)"
    using t b by simp
  show "\<not> isclose (Fin (2814762815303541 / 281474976710656)) (Fin (2814749767136803 / 281474976710656))"
    by (rule isclose_FalseI) (simp_all add: rel_tol_val_def)
qed

lemma loop_100_6:
  "newton_loop (Fin 100) v (Fin (2814749767136803 / 281474976710656)) out = Some (if v then out @ [Fin (2814749767136803 / 281474976710656)] else out, Inr (Fin 10))"
proof (rule newton_loop_return[where q = "Fin (2814749767076317 / 281474976710656)"])
  have "rnd (100 / (2814749767136803 / 281474976710656)) = Fin (2814749767076317 / 281474976710656)"
    by (rule rnd_eqI[where k = "5629499534152634" and u = "- 49"]) simp_all
  then show "float_truediv (Fin 100) (Fin (2814749767136803 / 281474976710656)) = Inr (Fin (2814749767076317 / 281474976710656))"
    by (simp add: float_truediv_def)
  have t: "rnd ((2814749767136803 / 281474976710656) + (2814749767076317 / 281474976710656)) = Fin 20"
    by (rule rnd_eqI[where k = "5629499534213120" and u = "- 48"]) simp_all
  have b: "rnd (20 / 2) = Fin 10"
    by (rule rnd_eqI[where k = "5629499534213120" and u = "- 49"]) simp_all
  show "float_quot (float_add (Fin (2814749767136803 / 281474976710656)) (Fin (2814749767076317 / 281474976710656))) (Fin 2) = Fin 10"
    using t b by simp
  show "isclose (Fin (2814749767136803 / 281474976710656)) (Fin 10)"
    by (rule isclose_TrueI) (simp add: rel_tol_val_def)
qed

lemma newton_sqrt_100:
  "newton_sqrt (Fin 100) verbose = Some (if verbose then [Fin 50, Fin 26, Fin (4200472729374405 / 281474976710656), Fin (3043322626862081 / 281474976710656), Fin (2823333403911227 / 281474976710656), Fin (2814762815303541 / 281474976710656), Fin (2814749767136803 / 281474976710656)] else [], Inr (Fin 10))"
proof -
  have "rnd (100 / 2) = Fin 50"
    by (rule rnd_eqI[where k = "7036874417766400" and u = "- 47"]) simp_all
  then have "newton_sqrt (Fin 100) verbose = newton_loop (Fin 100) verbose (Fin 50) []"
    by (simp add: newton_sqrt_def float_truediv_def)
  then show ?thesis
    by (simp add: loop_100_0 loop_100_1 loop_100_2 loop_100_3 loop_100_4 loop_100_5 loop_100_6)
qed

subsection \<open>\<open>newton_sqrt(1)\<close>\<close>

lemma loop_1_0:
  "newton_loop (Fin 1) v (Fin (1 / 2)) out
   = newton_loop (Fin 1) v (Fin (5 / 4)) (if v then out @ [Fin (1 / 2)] else out)"
proof (rule newton_loop_continue[where q = "Fin 2"])
  have "rnd (1 / (1 / 2)) = Fin 2"
    by (rule rnd_eqI[where k = "4503599627370496" and u = "- 51"]) simp_all
  then show "float_truediv (Fin 1) (Fin (1 / 2)) = Inr (Fin 2)"
    by (simp add: float_truediv_def)
  have t: "rnd ((1 / 2) + 2) = Fin (5 / 2)"
    by (rule rnd_eqI[where k = "5629499534213120" and u = "- 51"]) simp_all
  have b: "rnd ((5 / 2) / 2) = Fin (5 / 4)"
    by (rule rnd_eqI[where k = "5629499534213120" and u = "- 52"]) simp_all
  show "float_quot (float_add (Fin (1 / 2)) (Fin 2)) (Fin 2) = Fin (5 / 4)"
    using t b by simp
  show "\<not> isclose (Fin (1 / 2)) (Fin (5 / 4))"
    by (rule isclose_FalseI) (simp_all add: rel_tol_val_def)
qed

lemma loop_1_1:
  "newton_loop (Fin 1) v (Fin (5 / 4)) out
   = newton_loop (Fin 1) v (Fin (2308094809027379 / 2251799813685248)) (if v then out @ [Fin (5 / 4)] else out)"
proof (rule newton_loop_continue[where q = "Fin (3602879701896397 / 4503599627370496)"])
  have "rnd (1 / (5 / 4)) = Fin (3602879701896397 / 4503599627370496)"
    by (rule rnd_eqI[where k = "7205759403792794" and u = "- 53"]) simp_all
  then show "float_truediv (Fin 1) (Fin (5 / 4)) = Inr (Fin (3602879701896397 / 4503599627370496))"
    by (simp add: float_truediv_def)
  have t: "rnd ((5 / 4) + (3602879701896397 / 4503599627370496)) = Fin (2308094809027379 / 1125899906842624)"
    by (rule rnd_tieI[where k = "4616189618054758" and u = "- 51"]) simp_all
  have b: "rnd ((2308094809027379 / 1125899906842624) / 2) = Fin (2308094809027379 / 2251799813685248)"
    by (rule rnd_eqI[where k = "4616189618054758" and u = "- 52"]) simp_all
  show "float_quot (float_add (Fin (5 / 4)) (Fin (3602879701896397 / 4503599627370496))) (Fin 2) = Fin (2308094809027379 / 2251799813685248)"
    using t b by simp
  show "\<not> isclose (Fin (5 / 4)) (Fin (2308094809027379 / 2251799813685248))"
    by (rule isclose_FalseI) (simp_all add: rel_tol_val_def)
qed

lemma loop_1_2:
  "newton_loop (Fin 1) v (Fin (2308094809027379 / 2251799813685248)) out
   = newton_loop (Fin 1) v (Fin (4504972676037377 / 4503599627370496)) (if v then out @ [Fin (2308094809027379 / 2251799813685248)] else out)"
proof (rule newton_loop_continue[where q = "Fin (8787511468039993 / 9007199254740992)"])
  have "rnd (1 / (2308094809027379 / 2251799813685248)) = Fin (8787511468039993 / 9007199254740992)"
    by (rule rnd_eqI[where k = "8787511468039993" and u = "- 53"]) simp_all
  then show "float_truediv (Fin 1) (Fin (2308094809027379 / 2251799813685248)) = Inr (Fin (8787511468039993 / 9007199254740992))"
    by (simp add: float_truediv_def)
  have t: "rnd ((2308094809027379 / 2251799813685248) + (8787511468039993 / 9007199254740992)) = Fin (4504972676037377 / 2251799813685248)"
    by (rule rnd_eqI[where k = "4504972676037377" and u = "- 51"]) simp_all
  have b: "rnd ((4504972676037377 / 2251799813685248) / 2) = Fin (4504972676037377 / 4503599627370496)"
    by (rule rnd_eqI[where k = "4504972676037377" and u = "- 52"]) simp_all
  show "float_quot (float_add (Fin (2308094809027379 / 2251799813685248)) (Fin (8787511468039993 / 9007199254740992))) (Fin 2) = Fin (4504972676037377 / 4503599627370496)"
    using t b by simp
  show "\<not> isclose (Fin (2308094809027379 / 2251799813685248)) (Fin (4504972676037377 / 4503599627370496))"
    by (rule isclose_FalseI) (simp_all add: rel_tol_val_def)
qed

lemma loop_1_3:
  "newton_loop (Fin 1) v (Fin (4504972676037377 / 4503599627370496)) out
   = newton_loop (Fin 1) v (Fin (2251799918306451 / 2251799813685248)) (if v then out @ [Fin (4504972676037377 / 4503599627370496)] else out)"
proof (rule newton_loop_continue[where q = "Fin (9004453994376853 / 9007199254740992)"])
  have "rnd (1 / (4504972676037377 / 4503599627370496)) = Fin (9004453994376853 / 9007199254740992)"
    by (rule rnd_eqI[where k = "9004453994376853" and u = "- 53"]) simp_all
  then show "float_truediv (Fin 1) (Fin (4504972676037377 / 4503599627370496)) = Inr (Fin (9004453994376853 / 9007199254740992))"
    by (simp add: float_truediv_def)
  have t: "rnd ((4504972676037377 / 4503599627370496) + (9004453994376853 / 9007199254740992)) = Fin (2251799918306451 / 1125899906842624)"
    by (rule rnd_eqI[where k = "4503599836612902" and u = "- 51"]) simp_all
  have b: "rnd ((2251799918306451 / 1125899906842624) / 2) = Fin (2251799918306451 / 2251799813685248)"
    by (rule rnd_eqI[where k = "4503599836612902" and u = "- 52"]) simp_all
  show "float_quot (float_add (Fin (4504972676037377 / 4503599627370496)) (Fin (9004453994376853 / 9007199254740992))) (Fin 2) = Fin (2251799918306451 / 2251799813685248)"
    using t b by simp
  show "\<not> isclose (Fin (4504972676037377 / 4503599627370496)) (Fin (2251799918306451 / 2251799813685248))"
    by (rule isclose_FalseI) (simp_all add: rel_tol_val_def)
qed

lemma loop_1_4:
  "newton_loop (Fin 1) v (Fin (2251799918306451 / 2251799813685248)) out
   = newton_loop (Fin 1) v (Fin (4503599627370501 / 4503599627370496)) (if v then out @ [Fin (2251799918306451 / 2251799813685248)] else out)"
proof (rule newton_loop_continue[where q = "Fin (9007198836256199 / 9007199254740992)"])
  have "rnd (1 / (2251799918306451 / 2251799813685248)) = Fin (9007198836256199 / 9007199254740992)"
    by (rule rnd_eqI[where k = "9007198836256199" and u = "- 53"]) simp_all
  then show "float_truediv (Fin 1) (Fin (2251799918306451 / 2251799813685248)) = Inr (Fin (9007198836256199 / 9007199254740992))"
    by (simp add: float_truediv_def)
  have t: "rnd ((2251799918306451 / 2251799813685248) + (9007198836256199 / 9007199254740992)) = Fin (4503599627370501 / 2251799813685248)"
    by (rule rnd_eqI[where k = "4503599627370501" and u = "- 51"]) simp_all
  have b: "rnd ((4503599627370501 / 2251799813685248) / 2) = Fin (4503599627370501 / 4503599627370496)"
    by (rule rnd_eqI[where k = "4503599627370501" and u = "- 52"]) simp_all
  show "float_quot (float_add (Fin (2251799918306451 / 2251799813685248)) (Fin (9007198836256199 / 9007199254740992))) (Fin 2) = Fin (4503599627370501 / 4503599627370496)"
    using t b by simp
  show "\<not> isclose (Fin (2251799918306451 / 2251799813685248)) (Fin (4503599627370501 / 4503599627370496))"
    by (rule isclose_FalseI) (simp_all add: rel_tol_val_def)
qed

lemma loop_1_5:
  "newton_loop (Fin 1) v (Fin (4503599627370501 / 4503599627370496)) out = Some (if v then out @ [Fin (4503599627370501 / 4503599627370496)] else out, Inr (Fin 1))"
proof (rule newton_loop_return[where q = "Fin (4503599627370491 / 4503599627370496)"])
  have "rnd (1 / (4503599627370501 / 4503599627370496)) = Fin (4503599627370491 / 4503599627370496)"
    by (rule rnd_eqI[where k = "9007199254740982" and u = "- 53"]) simp_all
  then show "float_truediv (Fin 1) (Fin (4503599627370501 / 4503599627370496)) = Inr (Fin (4503599627370491 / 4503599627370496))"
    by (simp add: float_truediv_def)
  have t: "rnd ((4503599627370501 / 4503599627370496) + (4503599627370491 / 4503599627370496)) = Fin 2"
    by (rule rnd_eqI[where k = "4503599627370496" and u = "- 51"]) simp_all
  have b: "rnd (2 / 2) = Fin 1"
    by (rule rnd_eqI[where k = "4503599627370496" and u = "- 52"]) simp_all
  show "float_quot (float_add (Fin (4503599627370501 / 4503599627370496)) (Fin (4503599627370491 / 4503599627370496))) (Fin 2) = Fin 1"
    using t b by simp
  show "isclose (Fin (4503599627370501 / 4503599627370496)) (Fin 1)"
    by (rule isclose_TrueI) (simp add: rel_tol_val_def)
qed

lemma newton_sqrt_1:
  "newton_sqrt (Fin 1) verbose = Some (if verbose then [Fin (1 / 2), Fin (5 / 4), Fin (2308094809027379 / 2251799813685248), Fin (4504972676037377 / 4503599627370496), Fin (2251799918306451 / 2251799813685248), Fin (4503599627370501 / 4503599627370496)] else [], Inr (Fin 1))"
proof -
  have "rnd (1 / 2) = Fin (1 / 2)"
    by (rule rnd_eqI[where k = "4503599627370496" and u = "- 53"]) simp_all
  then have "newton_sqrt (Fin 1) verbose = newton_loop (Fin 1) verbose (Fin (1 / 2)) []"
    by (simp add: newton_sqrt_def float_truediv_def)
  then show ?thesis
    by (simp add: loop_1_0 loop_1_1 loop_1_2 loop_1_3 loop_1_4 loop_1_5)
qed

subsection \<open>\<open>newton_sqrt(0)\<close>\<close>

lemma loop_0_0:
  "newton_loop (Fin 0) v (Fin 0) out = Some (if v then out @ [Fin 0] else out, Inl ZeroDivisionError)"
  by (rule newton_loop_raise) (simp add: float_truediv_def)

lemma newton_sqrt_0:
  "newton_sqrt (Fin 0) verbose = Some (if verbose then [Fin 0] else [], Inl ZeroDivisionError)"
proof -
  have "rnd (0 / 2) = Fin 0"
    by simp
  then have "newton_sqrt (Fin 0) verbose = newton_loop (Fin 0) verbose (Fin 0) []"
    by (simp add: newton_sqrt_def float_truediv_def)
  then show ?thesis
    by (simp add: loop_0_0)
qed


section \<open>The properties of the specification\<close>

text \<open>
  C3. For the input 0 the solver fails with a division by zero in the first turn of the loop:
  the initial guess is \<open>0 / 2 = 0.0\<close>, it is the only guess printed, and
  \<open>n / guess\<close> raises. Nothing catches the error, so it is the outcome of the call.
\<close>

theorem newton_sqrt_zero_raises:
  "newton_sqrt (Fin 0) False = Some ([], Inl ZeroDivisionError)
   \<and> newton_sqrt (Fin 0) True = Some ([Fin 0], Inl ZeroDivisionError)"
  by (simp add: newton_sqrt_0)

text \<open>
  C6. \<open>newton_sqrt(100)\<close> returns exactly \<open>10.0\<close>.
\<close>

theorem newton_sqrt_100_exact:
  "newton_sqrt (Fin 100) False = Some ([], Inr (Fin 10))"
  by (simp add: newton_sqrt_100)

text \<open>
  C7. \<open>newton_sqrt(1)\<close> returns exactly \<open>1.0\<close>.
\<close>

theorem newton_sqrt_1_exact:
  "newton_sqrt (Fin 1) False = Some ([], Inr (Fin 1))"
  by (simp add: newton_sqrt_1)

end
